theory Spec2Isabelle
  imports Main "HOL-Library.Word" "HOL-Library.Sublist"
begin

section \<open>The request queue of \<open>threadpool_task3.c\<close>\<close>

text \<open>
  The program keeps its pending requests in a singly linked list of heap nodes, reached
  from the globals \<open>requests\<close> (head) and \<open>last_request\<close> (tail), with the
  counter \<open>num_requests\<close> and the flag \<open>quit\<close>.  The model keeps the pointers: a
  pointer is \<open>None\<close> for \<open>NULL\<close> and \<open>Some a\<close> for the address \<open>a\<close>, and the
  nodes live in an explicit store from addresses to node contents.

  The counter is a C \<open>int\<close>.  Incrementing it at \<open>INT_MAX\<close>, which is 2147483647,
  is undefined in C, so the model uses \<open>int\<close> and says what \<open>add_request\<close> does
  when it is called with fewer than 2147483647 requests pending.  Every statement below
  about the incremented counter carries that bound as a hypothesis, and the executions
  considered are those in which \<open>add_request\<close> is only called below the bound; in
  them the counter stays between 0 and 2147483647.
\<close>

subsection \<open>Data\<close>

type_synonym addr = nat

text \<open>The two functions the program ever stores in a request.\<close>

datatype func = Test_func | SquareValue

text \<open>\<open>struct request\<close>; the field \<open>next\<close> is called \<open>nxt\<close> here.\<close>

record request =
  func :: func
  data :: addr
  nxt :: "addr option"

text \<open>The global variables, and the allocated request nodes.\<close>

record pool =
  heap :: "addr \<rightharpoonup> request"
  requests :: "addr option"
  last_request :: "addr option"
  num_requests :: int
  quit :: int

text \<open>
  \<open>Exit n\<close> is the call \<open>exit(n)\<close>.  \<open>Bad_pointer\<close> is the dereference of
  \<open>NULL\<close> or of an address that holds no object, and \<open>Signed_overflow\<close> an
  \<open>int\<close> product out of range: both are undefined behaviour in C, and the model stops
  there.
\<close>

datatype error = Exit int | Bad_pointer | Signed_overflow

definition init_pool :: pool where
  "init_pool = \<lparr>heap = Map.empty, requests = None, last_request = None,
                 num_requests = 0, quit = 0\<rparr>"

subsection \<open>\<open>add_request\<close>\<close>

text \<open>
  The third argument is what \<open>malloc\<close> returned: \<open>None\<close> for \<open>NULL\<close>, otherwise
  the address of the new block.  The mutex and the condition variable are not part of
  the sequential model: the function is the critical section together with the
  allocation before it.
\<close>

definition add_request :: "func \<Rightarrow> addr \<Rightarrow> addr option \<Rightarrow> pool \<Rightarrow> error + pool" where
  "add_request f d m s =
     (case m of
        None \<Rightarrow> Inl (Exit 1)
      | Some a \<Rightarrow>
          (let h = (heap s)(a \<mapsto> \<lparr>func = f, data = d, nxt = None\<rparr>) in
           if num_requests s = 0 then
             Inr (s\<lparr>heap := h, requests := Some a, last_request := Some a,
                    num_requests := num_requests s + 1\<rparr>)
           else
             (case last_request s of
                None \<Rightarrow> Inl Bad_pointer
              | Some l \<Rightarrow>
                  (case h l of
                     None \<Rightarrow> Inl Bad_pointer
                   | Some r \<Rightarrow>
                       Inr (s\<lparr>heap := h(l \<mapsto> r\<lparr>nxt := Some a\<rparr>),
                              last_request := Some a,
                              num_requests := num_requests s + 1\<rparr>)))))"

subsection \<open>\<open>get_request\<close>\<close>

definition get_request :: "pool \<Rightarrow> error + (addr option \<times> pool)" where
  "get_request s =
     (if num_requests s > 0 then
        (case requests s of
           None \<Rightarrow> Inl Bad_pointer
         | Some a \<Rightarrow>
             (case heap s a of
                None \<Rightarrow> Inl Bad_pointer
              | Some r \<Rightarrow>
                  Inr (Some a,
                       s\<lparr>requests := nxt r,
                         last_request := (if nxt r = None then None else last_request s),
                         num_requests := num_requests s - 1\<rparr>)))
      else Inr (None, s))"

subsection \<open>The list a state represents\<close>

text \<open>
  A pending request is described by the address of its node and the two fields the
  caller supplied.  \<open>list_from h p xs\<close> reads: following \<open>nxt\<close> from the pointer
  \<open>p\<close> in the store \<open>h\<close> visits exactly the nodes of \<open>xs\<close>, in this order, each
  with the contents listed, and ends at \<open>NULL\<close>.
\<close>

type_synonym item = "func \<times> addr"

fun list_from :: "(addr \<rightharpoonup> request) \<Rightarrow> addr option \<Rightarrow> (addr \<times> item) list \<Rightarrow> bool" where
  "list_from h p [] = (p = None)"
| "list_from h p (x # xs) =
     (p = Some (fst x) \<and>
      (case h (fst x) of
         None \<Rightarrow> False
       | Some r \<Rightarrow> (func r, data r) = snd x \<and> list_from h (nxt r) xs))"

text \<open>
  \<open>queue_rep s xs\<close>: the globals of \<open>s\<close> form a well-formed queue holding \<open>xs\<close>,
  head first.
\<close>

definition queue_rep :: "pool \<Rightarrow> (addr \<times> item) list \<Rightarrow> bool" where
  "queue_rep s xs =
     (list_from (heap s) (requests s) xs \<and> distinct (map fst xs) \<and>
      num_requests s = int (length xs) \<and>
      last_request s = (if xs = [] then None else Some (fst (last xs))))"

subsection \<open>Executions of the queue operations\<close>

text \<open>
  \<open>free(a_request)\<close> in the worker returns the node to the allocator.
\<close>

definition free_request :: "addr \<Rightarrow> pool \<Rightarrow> pool" where
  "free_request a s = s\<lparr>heap := (heap s)(a := None)\<rparr>"

text \<open>The assignment \<open>quit = 1\<close> of \<open>main\<close>.\<close>

definition set_quit :: "pool \<Rightarrow> pool" where
  "set_quit s = s\<lparr>quit := 1\<rparr>"

text \<open>
  \<open>reach s sub deq held\<close>: the state \<open>s\<close> is reached from the initial one by some
  sequence of calls of \<open>add_request\<close> and \<open>get_request\<close>, in any order, mixed with
  the \<open>free\<close> of nodes that \<open>get_request\<close> handed out and with the setting of
  \<open>quit\<close>.  The other three arguments record the history: \<open>sub\<close> lists the items
  submitted so far, \<open>deq\<close> the contents of the nodes returned by \<open>get_request\<close> so
  far, both oldest first, and \<open>held\<close> is the set of nodes returned and not yet freed.
  \<open>malloc\<close> may return any address that is not allocated at the time of the call,
  and \<open>add_request\<close> is called only while the counter is below \<open>INT_MAX\<close>.

  Both functions touch the globals only while \<open>request_mutex\<close> is held, so the calls
  made by different threads take effect one at a time, in some order: the sequences of
  this relation are the interleavings of the program.
\<close>

inductive reach :: "pool \<Rightarrow> item list \<Rightarrow> item list \<Rightarrow> addr set \<Rightarrow> bool" where
  reach_init: "reach init_pool [] [] {}"
| reach_add: "reach s sub deq held \<Longrightarrow> a \<notin> dom (heap s) \<Longrightarrow>
     add_request f d (Some a) s = Inr s' \<Longrightarrow> num_requests s < 2147483647 \<Longrightarrow>
     reach s' (sub @ [(f, d)]) deq held"
| reach_get: "reach s sub deq held \<Longrightarrow> get_request s = Inr (Some a, s') \<Longrightarrow>
     heap s a = Some r \<Longrightarrow> reach s' sub (deq @ [(func r, data r)]) (insert a held)"
| reach_get_null: "reach s sub deq held \<Longrightarrow> get_request s = Inr (None, s') \<Longrightarrow>
     reach s' sub deq held"
| reach_free: "reach s sub deq held \<Longrightarrow> a \<in> held \<Longrightarrow>
     reach (free_request a s) sub deq (held - {a})"
| reach_quit: "reach s sub deq held \<Longrightarrow> reach (set_quit s) sub deq held"

text \<open>
  The node \<open>last_request\<close> points to exists and its \<open>next\<close> field is \<open>NULL\<close>.
\<close>

definition tail_terminated :: "pool \<Rightarrow> bool" where
  "tail_terminated s =
     (case last_request s of
        None \<Rightarrow> False
      | Some l \<Rightarrow> (case heap s l of None \<Rightarrow> False | Some r \<Rightarrow> nxt r = None))"

text \<open>
  Two states used as examples below: the queue after \<open>test_func\<close> was submitted with
  payload 5 (node at address 0), and after \<open>squareValue\<close> was then submitted with
  payload 7 (node at address 1).
\<close>

definition one_pending :: pool where
  "one_pending =
     \<lparr>heap = [0 \<mapsto> \<lparr>func = Test_func, data = 5, nxt = None\<rparr>],
      requests = Some 0, last_request = Some 0, num_requests = 1, quit = 0\<rparr>"

definition two_pending :: pool where
  "two_pending =
     \<lparr>heap = [0 \<mapsto> \<lparr>func = Test_func, data = 5, nxt = Some 1\<rparr>,
              1 \<mapsto> \<lparr>func = SquareValue, data = 7, nxt = None\<rparr>],
      requests = Some 0, last_request = Some 1, num_requests = 2, quit = 0\<rparr>"

text \<open>
  The state after \<open>get_request\<close> was then called once: the node at address 0 has
  been handed out and is still allocated.
\<close>

definition second_pending :: pool where
  "second_pending =
     \<lparr>heap = [0 \<mapsto> \<lparr>func = Test_func, data = 5, nxt = Some 1\<rparr>,
              1 \<mapsto> \<lparr>func = SquareValue, data = 7, nxt = None\<rparr>],
      requests = Some 1, last_request = Some 1, num_requests = 1, quit = 0\<rparr>"

section \<open>The worker and the demo program\<close>

text \<open>
  The payloads of the program are the cells of the \<open>int\<close> array of \<open>main\<close>: the
  memory of the model is that array, and the pointer \<open>&array[i]\<close> is the index \<open>i\<close>.
\<close>

type_synonym memory = "32 word list"

text \<open>
  The expression \<open>*value * *value\<close> on \<open>int\<close>: the product, unless it does not fit.
\<close>

definition square :: "32 word \<Rightarrow> error + 32 word" where
  "square v =
     (if - (2 ^ 31) \<le> sint v * sint v \<and> sint v * sint v < 2 ^ 31 then Inr (v * v)
      else Inl Signed_overflow)"

definition squareValue :: "addr \<Rightarrow> memory \<Rightarrow> error + memory" where
  "squareValue arg mem =
     (if arg < length mem then
        (case square (mem ! arg) of Inl e \<Rightarrow> Inl e | Inr v \<Rightarrow> Inr (mem[arg := v]))
      else Inl Bad_pointer)"

text \<open>\<open>test_func\<close> only prints; the output stream is not modelled.\<close>

definition test_func :: "addr \<Rightarrow> memory \<Rightarrow> error + memory" where
  "test_func arg mem = Inr mem"

text \<open>A call through a function pointer.\<close>

definition call :: "func \<Rightarrow> addr \<Rightarrow> memory \<Rightarrow> error + memory" where
  "call f arg mem =
     (case f of Test_func \<Rightarrow> test_func arg mem | SquareValue \<Rightarrow> squareValue arg mem)"

text \<open>\<open>handle_request\<close>: the call \<open>a_request->func(a_request->data)\<close>.\<close>

definition handle_request :: "addr \<Rightarrow> pool \<Rightarrow> memory \<Rightarrow> error + memory" where
  "handle_request a s mem =
     (case heap s a of
        None \<Rightarrow> Inl Bad_pointer
      | Some r \<Rightarrow> call (func r) (data r) mem)"

text \<open>
  One pass through the body of the \<open>while (running)\<close> loop of
  \<open>handle_requests_loop\<close>, for a worker that runs alone: no other thread changes the
  globals between its steps, and \<open>pthread_cond_wait\<close> returns with the globals as they
  were.  The result is the new value of \<open>running\<close> with the new state and memory.
  The test of \<open>quit\<close> comes last and is made on every pass, whichever branch was
  taken before it.
\<close>

definition loop_body :: "int \<Rightarrow> pool \<Rightarrow> memory \<Rightarrow> error + (int \<times> pool \<times> memory)" where
  "loop_body running s mem =
     (case
        (if num_requests s > 0 then
           (case get_request s of
              Inl e \<Rightarrow> Inl e
            | Inr (None, s1) \<Rightarrow> Inr (s1, mem)
            | Inr (Some a, s1) \<Rightarrow>
                (case handle_request a s1 mem of
                   Inl e \<Rightarrow> Inl e
                 | Inr mem1 \<Rightarrow> Inr (free_request a s1, mem1)))
         else Inr (s, mem))
      of
        Inl e \<Rightarrow> Inl e
      | Inr (s2, mem2) \<Rightarrow> Inr (if quit s2 \<noteq> 0 then 0 else running, s2, mem2))"

text \<open>
  The loop itself.  It need not return (a lone worker with an empty queue and \<open>quit\<close>
  unset goes round for ever), and then the value is \<open>None\<close>.
\<close>

partial_function (option) while_running ::
    "int \<times> pool \<times> memory \<Rightarrow> (error + (pool \<times> memory)) option" where
  "while_running c =
     (case c of (running, s, mem) \<Rightarrow>
        if running \<noteq> 0 then
          (case loop_body running s mem of
             Inl e \<Rightarrow> Some (Inl e)
           | Inr c' \<Rightarrow> while_running c')
        else Some (Inr (s, mem)))"

definition handle_requests_loop :: "pool \<Rightarrow> memory \<Rightarrow> (error + (pool \<times> memory)) option" where
  "handle_requests_loop s mem = while_running (1, s, mem)"

text \<open>The first \<open>n\<close> passes of the loop (fewer when \<open>running\<close> becomes 0 before).\<close>

fun loop_iterations :: "nat \<Rightarrow> int \<times> pool \<times> memory \<Rightarrow> error + (int \<times> pool \<times> memory)" where
  "loop_iterations 0 c = Inr c"
| "loop_iterations (Suc n) c =
     (case c of (running, s, mem) \<Rightarrow>
        if running \<noteq> 0 then
          (case loop_body running s mem of
             Inl e \<Rightarrow> Inl e
           | Inr c' \<Rightarrow> loop_iterations n c')
        else Inr c)"

text \<open>
  The array of \<open>main\<close>, and its loop that submits \<open>squareValue\<close> with \<open>&array[i]\<close>
  for each index.  The list argument holds what \<open>malloc\<close> returns in each call, one
  entry per element of the array.
\<close>

definition array :: memory where
  "array = [1, 12, 21323, 12, 31312, 1, 13, 3, 5, 7, 8, 9, 943]"

fun submit_loop :: "nat \<Rightarrow> addr option list \<Rightarrow> pool \<Rightarrow> error + pool" where
  "submit_loop i [] s = Inr s"
| "submit_loop i (m # ms) s =
     (case add_request SquareValue i m s of
        Inl e \<Rightarrow> Inl e
      | Inr s' \<Rightarrow> submit_loop (Suc i) ms s')"

definition NUM_HANDLER_THREADS :: nat where
  "NUM_HANDLER_THREADS = 3"

text \<open>A number of workers that run one after the other, each until its loop returns.\<close>

fun run_workers :: "nat \<Rightarrow> pool \<times> memory \<Rightarrow> (error + (pool \<times> memory)) option" where
  "run_workers 0 c = Some (Inr c)"
| "run_workers (Suc n) c =
     (case handle_requests_loop (fst c) (snd c) of
        None \<Rightarrow> None
      | Some (Inl e) \<Rightarrow> Some (Inl e)
      | Some (Inr c') \<Rightarrow> run_workers n c')"

text \<open>
  Two runs of \<open>main\<close> with its three workers, up to the return of the last
  \<open>pthread_join\<close>.  Both are schedules the program can take: \<open>pthread_create\<close>
  does not say when the new thread first runs.

  In \<open>main_quit_first\<close> the main thread submits every element and sets \<open>quit\<close>
  before any worker has locked the mutex; then the workers run, one after the other.

  In \<open>main_drained\<close> the main thread submits every element, one worker makes as many
  passes through its loop as there are elements, the main thread sets \<open>quit\<close> and
  broadcasts while the workers wait, and the workers run on until they return.  A pass
  reads nothing but \<open>num_requests\<close> before it waits, and setting \<open>quit\<close> leaves
  \<open>num_requests\<close> alone, so the pass that waits is the pass from the state with
  \<open>quit\<close> already set.
\<close>

definition main_quit_first :: "addr option list \<Rightarrow> (error + (pool \<times> memory)) option" where
  "main_quit_first ms =
     (case submit_loop 0 ms init_pool of
        Inl e \<Rightarrow> Some (Inl e)
      | Inr s \<Rightarrow> run_workers NUM_HANDLER_THREADS (set_quit s, array))"

definition main_drained :: "addr option list \<Rightarrow> (error + (pool \<times> memory)) option" where
  "main_drained ms =
     (case submit_loop 0 ms init_pool of
        Inl e \<Rightarrow> Some (Inl e)
      | Inr s \<Rightarrow>
          (case loop_iterations (length ms) (1, s, array) of
             Inl e \<Rightarrow> Some (Inl e)
           | Inr (running, s', mem) \<Rightarrow>
               (case while_running (running, set_quit s', mem) of
                  None \<Rightarrow> None
                | Some (Inl e) \<Rightarrow> Some (Inl e)
                | Some (Inr c) \<Rightarrow> run_workers (NUM_HANDLER_THREADS - 1) c)))"

text \<open>What \<open>main\<close> can observe at the end: the counter and the array.\<close>

definition pending_and_array ::
    "(error + (pool \<times> memory)) option \<Rightarrow> (error + (int \<times> memory)) option" where
  "pending_and_array = map_option (map_sum id (\<lambda>(s, mem). (num_requests s, mem)))"

text \<open>
  The effect on the memory of calling the functions of a list of items in order.
\<close>

fun run_items :: "item list \<Rightarrow> memory \<Rightarrow> error + memory" where
  "run_items [] mem = Inr mem"
| "run_items (x # xs) mem =
     (case call (fst x) (snd x) mem of
        Inl e \<Rightarrow> Inl e
      | Inr mem' \<Rightarrow> run_items xs mem')"

section \<open>Properties of the queue operations\<close>

subsection \<open>Lists in the store\<close>

lemma list_from_dom: "list_from h p xs \<Longrightarrow> fst ` set xs \<subseteq> dom h"
  by (induction xs arbitrary: p) (auto split: option.splits)

lemma list_from_upd:
  "a \<notin> fst ` set xs \<Longrightarrow> list_from (h(a := v)) p xs = list_from h p xs"
  by (induction xs arbitrary: p) (auto split: option.splits)

lemma list_from_last_nxt:
  "list_from h p xs \<Longrightarrow> xs \<noteq> [] \<Longrightarrow>
   \<exists>r. h (fst (last xs)) = Some r \<and> nxt r = None \<and> (func r, data r) = snd (last xs)"
  by (induction xs arbitrary: p) (auto split: option.splits)

lemma list_from_snoc:
  assumes "list_from h p xs" and "xs \<noteq> []" and "distinct (map fst xs)"
    and "a \<notin> fst ` set xs" and "h (fst (last xs)) = Some r"
  shows "list_from (h(a \<mapsto> \<lparr>func = f, data = d, nxt = None\<rparr>,
                     fst (last xs) \<mapsto> r\<lparr>nxt := Some a\<rparr>)) p (xs @ [(a, f, d)])"
  using assms
proof (induction xs arbitrary: p)
  case Nil
  then show ?case by simp
next
  case (Cons x xs)
  show ?case
  proof (cases "xs = []")
    case True
    with Cons.prems show ?thesis by (auto split: option.splits)
  next
    case False
    from Cons.prems False have ne: "fst x \<noteq> fst (last xs)" "fst x \<noteq> a"
      by auto
    from Cons.prems obtain q where q: "h (fst x) = Some q" "p = Some (fst x)"
      "(func q, data q) = snd x" "list_from h (nxt q) xs"
      by (auto split: option.splits)
    define h' where "h' = h(a \<mapsto> \<lparr>func = f, data = d, nxt = None\<rparr>,
        fst (last xs) \<mapsto> r\<lparr>nxt := Some a\<rparr>)"
    from Cons.prems False have "list_from h' (nxt q) (xs @ [(a, f, d)])"
      unfolding h'_def using q by (intro Cons.IH) auto
    moreover from q ne have "h' (fst x) = Some q"
      by (simp add: h'_def)
    ultimately have step: "list_from h' p ((x # xs) @ [(a, f, d)])"
      using q by simp
    from False have l: "last (x # xs) = last xs" by simp
    from step show ?thesis unfolding h'_def l .
  qed
qed

lemma queue_rep_empty: "queue_rep init_pool []"
  by (simp add: queue_rep_def init_pool_def)

lemma queue_rep_add:
  assumes "queue_rep s xs" and "a \<notin> dom (heap s)" and "num_requests s < 2147483647"
  shows "\<exists>s'. add_request f d (Some a) s = Inr s' \<and> queue_rep s' (xs @ [(a, f, d)]) \<and>
           num_requests s' = num_requests s + 1 \<and> last_request s' = Some a \<and>
           heap s' a = Some \<lparr>func = f, data = d, nxt = None\<rparr> \<and>
           dom (heap s') = insert a (dom (heap s)) \<and> quit s' = quit s \<and>
           num_requests s' \<le> 2147483647"
proof (cases "xs = []")
  case True
  with assms show ?thesis
    by (simp add: add_request_def queue_rep_def)
next
  case False
  from assms have lf: "list_from (heap s) (requests s) xs" and dist: "distinct (map fst xs)"
    and n: "num_requests s = int (length xs)" and l: "last_request s = Some (fst (last xs))"
    using False by (simp_all add: queue_rep_def)
  from list_from_dom [OF lf] assms(2) have fresh: "a \<notin> fst ` set xs" by auto
  from list_from_last_nxt [OF lf False] obtain r where r: "heap s (fst (last xs)) = Some r"
    by blast
  from False fresh have ne: "fst (last xs) \<noteq> a"
    by (metis image_eqI last_in_set)
  from n False have nz: "num_requests s \<noteq> 0" by simp
  let ?s' = "s\<lparr>heap := (heap s)(a \<mapsto> \<lparr>func = f, data = d, nxt = None\<rparr>,
                       fst (last xs) \<mapsto> r\<lparr>nxt := Some a\<rparr>),
               last_request := Some a, num_requests := num_requests s + 1\<rparr>"
  have eq: "add_request f d (Some a) s = Inr ?s'"
    using nz l r ne by (simp add: add_request_def)
  have rep: "queue_rep ?s' (xs @ [(a, f, d)])"
    using list_from_snoc [OF lf False dist fresh r] dist fresh n
    by (simp add: queue_rep_def)
  have d: "dom (heap ?s') = insert a (dom (heap s))"
    using r by auto
  from eq rep d ne assms(3) show ?thesis by simp
qed

lemma queue_rep_get_empty: "queue_rep s [] \<Longrightarrow> get_request s = Inr (None, s)"
  by (simp add: queue_rep_def get_request_def)

lemma queue_rep_get:
  assumes "queue_rep s (x # xs)"
  shows "\<exists>r. heap s (fst x) = Some r \<and> (func r, data r) = snd x \<and> requests s = Some (fst x) \<and>
           get_request s =
             Inr (Some (fst x),
                  s\<lparr>requests := nxt r,
                    last_request := (if nxt r = None then None else last_request s),
                    num_requests := num_requests s - 1\<rparr>) \<and>
           queue_rep (s\<lparr>requests := nxt r,
                        last_request := (if nxt r = None then None else last_request s),
                        num_requests := num_requests s - 1\<rparr>) xs"
proof -
  from assms obtain r where r: "heap s (fst x) = Some r" "(func r, data r) = snd x"
    "requests s = Some (fst x)" "list_from (heap s) (nxt r) xs"
    by (auto simp: queue_rep_def split: option.splits)
  have nil: "(nxt r = None) = (xs = [])"
    using r(4) by (cases xs) auto
  from assms r nil show ?thesis
    by (auto simp: queue_rep_def get_request_def)
qed

lemma queue_rep_free:
  "queue_rep s xs \<Longrightarrow> a \<notin> fst ` set xs \<Longrightarrow> queue_rep (free_request a s) xs"
  by (simp add: queue_rep_def free_request_def list_from_upd)

lemma queue_rep_set_quit: "queue_rep s xs \<Longrightarrow> queue_rep (set_quit s) xs"
  by (simp add: queue_rep_def set_quit_def)

lemma queue_rep_nodes: "queue_rep s xs \<Longrightarrow> fst ` set xs \<subseteq> dom (heap s)"
  unfolding queue_rep_def by (blast dest: list_from_dom)

lemma queue_rep_add_total:
  assumes "queue_rep s xs"
  shows "\<exists>s'. add_request f d (Some a) s = Inr s'"
proof (cases "xs = []")
  case True
  with assms show ?thesis by (simp add: add_request_def queue_rep_def)
next
  case False
  with assms have l: "last_request s = Some (fst (last xs))" and "num_requests s \<noteq> 0"
    by (simp_all add: queue_rep_def)
  moreover from queue_rep_nodes [OF assms] False obtain r
    where "heap s (fst (last xs)) = Some r"
    by (metis domD image_subset_iff last_in_set)
  ultimately show ?thesis
    by (simp add: add_request_def)
qed

lemma queue_rep_shape:
  assumes "queue_rep s xs"
  shows "(requests s \<noteq> None) = (0 < num_requests s)"
    and "(last_request s \<noteq> None) = (0 < num_requests s)"
    and "num_requests s = 1 \<Longrightarrow> requests s = last_request s"
    and "0 < num_requests s \<Longrightarrow> tail_terminated s"
proof -
  from assms show "(requests s \<noteq> None) = (0 < num_requests s)"
    by (cases xs) (auto simp: queue_rep_def)
  from assms show "(last_request s \<noteq> None) = (0 < num_requests s)"
    by (cases xs) (auto simp: queue_rep_def)
  show "requests s = last_request s" if "num_requests s = 1"
  proof -
    from assms that have "length xs = 1" by (simp add: queue_rep_def)
    then obtain x where "xs = [x]" by (cases xs) auto
    with assms show ?thesis by (simp add: queue_rep_def)
  qed
  show "tail_terminated s" if "0 < num_requests s"
  proof -
    from assms that have ne: "xs \<noteq> []" by (auto simp: queue_rep_def)
    from assms have "list_from (heap s) (requests s) xs" by (simp add: queue_rep_def)
    from list_from_last_nxt [OF this ne] assms ne show ?thesis
      by (auto simp: tail_terminated_def queue_rep_def)
  qed
qed

subsection \<open>Reachable states are well-formed queues\<close>

lemma reach_inv:
  "reach s sub deq held \<Longrightarrow>
   \<exists>xs. queue_rep s xs \<and> sub = deq @ map snd xs \<and> fst ` set xs \<inter> held = {} \<and>
        held \<subseteq> dom (heap s) \<and> num_requests s \<le> 2147483647"
proof (induction rule: reach.induct)
  case reach_init
  show ?case using queue_rep_empty
    by (intro exI [of _ "[]"]) (simp add: init_pool_def)
next
  case (reach_add s sub deq held a f d s')
  then obtain xs where xs: "queue_rep s xs" "sub = deq @ map snd xs"
    "fst ` set xs \<inter> held = {}" "held \<subseteq> dom (heap s)" by blast
  from queue_rep_add [OF xs(1) reach_add.hyps(2,4), of f d] reach_add.hyps(3)
  have s': "queue_rep s' (xs @ [(a, f, d)])" "dom (heap s') = insert a (dom (heap s))"
    "num_requests s' \<le> 2147483647"
    by auto
  from xs reach_add.hyps(2) have "a \<notin> held" by auto
  with xs s' show ?case
    by (intro exI [of _ "xs @ [(a, f, d)]"]) auto
next
  case (reach_get s sub deq held a s' r)
  then obtain xs where xs: "queue_rep s xs" "sub = deq @ map snd xs"
    "fst ` set xs \<inter> held = {}" "held \<subseteq> dom (heap s)"
    and b: "num_requests s \<le> 2147483647" by blast
  show ?case
  proof (cases xs)
    case Nil
    with xs(1) reach_get.hyps(2) show ?thesis
      by (simp add: queue_rep_get_empty)
  next
    case (Cons x ys)
    from queue_rep_get [of s x ys] xs(1) Cons reach_get.hyps(2,3)
    have g: "a = fst x" "(func r, data r) = snd x" "queue_rep s' ys" "heap s' = heap s"
      "num_requests s' = num_requests s - 1"
      by auto
    from xs(1) Cons have "fst x \<notin> fst ` set ys" "fst x \<in> dom (heap s)"
      using queue_rep_nodes [OF xs(1)] by (auto simp: queue_rep_def)
    with g xs b Cons show ?thesis
      by (intro exI [of _ ys]) auto
  qed
next
  case (reach_get_null s sub deq held s')
  then obtain xs where xs: "queue_rep s xs" "sub = deq @ map snd xs"
    "fst ` set xs \<inter> held = {}" "held \<subseteq> dom (heap s)"
    and b: "num_requests s \<le> 2147483647" by blast
  have "s' = s"
  proof (cases xs)
    case Nil
    with xs(1) reach_get_null.hyps(2) show ?thesis by (simp add: queue_rep_get_empty)
  next
    case (Cons x ys)
    with queue_rep_get [of s x ys] xs(1) reach_get_null.hyps(2) show ?thesis by auto
  qed
  with xs b show ?case by blast
next
  case (reach_free s sub deq held a)
  then obtain xs where xs: "queue_rep s xs" "sub = deq @ map snd xs"
    "fst ` set xs \<inter> held = {}" "held \<subseteq> dom (heap s)"
    and b: "num_requests s \<le> 2147483647" by blast
  from xs(3) reach_free.hyps(2) have "a \<notin> fst ` set xs" by auto
  moreover have "held - {a} \<subseteq> dom (heap (free_request a s))"
    using xs(4) by (auto simp: free_request_def split: if_splits)
  moreover from b have "num_requests (free_request a s) \<le> 2147483647"
    by (simp add: free_request_def)
  ultimately show ?case
    using queue_rep_free [of s xs a] xs by (intro exI [of _ xs]) auto
next
  case (reach_quit s sub deq held)
  then obtain xs where xs: "queue_rep s xs" "sub = deq @ map snd xs"
    "fst ` set xs \<inter> held = {}" "held \<subseteq> dom (heap s)"
    and b: "num_requests s \<le> 2147483647" by blast
  with queue_rep_set_quit [OF xs(1)] show ?case
    by (intro exI [of _ xs]) (auto simp: set_quit_def)
qed

subsection \<open>The example states\<close>

lemma queue_rep_one_pending: "queue_rep one_pending [(0, Test_func, 5)]"
  by (simp add: queue_rep_def one_pending_def)

lemma queue_rep_two_pending: "queue_rep two_pending [(0, Test_func, 5), (1, SquareValue, 7)]"
  by (simp add: queue_rep_def two_pending_def)

lemma add_request_init: "add_request Test_func 5 (Some 0) init_pool = Inr one_pending"
  by (simp add: add_request_def init_pool_def one_pending_def)

lemma add_request_one_pending:
  "add_request SquareValue 7 (Some 1) one_pending = Inr two_pending"
  by (simp add: add_request_def one_pending_def two_pending_def fun_upd_twist)

lemma reach_one_pending: "reach one_pending [(Test_func, 5)] [] {}"
proof -
  have "reach one_pending ([] @ [(Test_func, 5)]) [] {}"
    by (rule reach_add [OF reach_init _ add_request_init]) (simp_all add: init_pool_def)
  then show ?thesis by simp
qed

lemma reach_two_pending: "reach two_pending [(Test_func, 5), (SquareValue, 7)] [] {}"
proof -
  have "reach two_pending ([(Test_func, 5)] @ [(SquareValue, 7)]) [] {}"
    by (rule reach_add [OF reach_one_pending _ add_request_one_pending])
       (simp_all add: one_pending_def)
  then show ?thesis by simp
qed

lemma get_request_two_pending: "get_request two_pending = Inr (Some 0, second_pending)"
  by (simp add: get_request_def two_pending_def second_pending_def)

lemma reach_second_pending:
  "reach second_pending [(Test_func, 5), (SquareValue, 7)] [(Test_func, 5)] {0}"
proof -
  have "heap two_pending 0 = Some \<lparr>func = Test_func, data = 5, nxt = Some 1\<rparr>"
    by (simp add: two_pending_def)
  from reach_get [OF reach_two_pending get_request_two_pending this]
  show ?thesis by simp
qed

section \<open>The claims about the queue\<close>

text \<open>
  C9.  Whenever the counter of pending requests is 0, \<open>get_request\<close> returns
  \<open>NULL\<close> and changes neither \<open>requests\<close>, nor \<open>last_request\<close>, nor
  \<open>num_requests\<close>: the whole state is the one it was called in.
\<close>

theorem get_request_empty_unchanged:
  assumes "num_requests s = 0"
  shows "get_request s = Inr (None, s)"
  using assms by (simp add: get_request_def)

theorem get_request_empty_unchanged_witness:
  "num_requests init_pool = 0 \<and> get_request init_pool = Inr (None, init_pool)"
proof -
  have z: "num_requests init_pool = 0" by (simp add: init_pool_def)
  from get_request_empty_unchanged [OF z] z show ?thesis by simp
qed

text \<open>
  C4.  In every well-formed queue state: when the queue is empty \<open>get_request\<close>
  returns \<open>NULL\<close> and changes nothing; otherwise it returns the head pointer, the
  node it designates is the first of the list and keeps its contents, the list that
  remains is the old one without its first node, the counter has decreased by exactly 1,
  and when the removed node was the only one both \<open>requests\<close> and
  \<open>last_request\<close> are \<open>NULL\<close> afterwards.
\<close>

theorem get_request_removes_head:
  assumes "queue_rep s xs"
  shows "if num_requests s = 0 then get_request s = Inr (None, s)
         else (\<exists>s'. get_request s = Inr (requests s, s') \<and>
                 requests s = Some (fst (hd xs)) \<and> queue_rep s' (tl xs) \<and>
                 heap s' = heap s \<and> num_requests s' = num_requests s - 1 \<and>
                 (if num_requests s = 1 then requests s' = None \<and> last_request s' = None
                  else requests s' \<noteq> None))"
proof (cases xs)
  case Nil
  with assms show ?thesis
    by (simp add: queue_rep_def get_request_def)
next
  case (Cons x ys)
  from queue_rep_get [of s x ys] assms Cons obtain r where
    r: "heap s (fst x) = Some r" "requests s = Some (fst x)"
    and g: "get_request s =
             Inr (Some (fst x),
                  s\<lparr>requests := nxt r,
                    last_request := (if nxt r = None then None else last_request s),
                    num_requests := num_requests s - 1\<rparr>)"
    and q: "queue_rep (s\<lparr>requests := nxt r,
                        last_request := (if nxt r = None then None else last_request s),
                        num_requests := num_requests s - 1\<rparr>) ys"
    by blast
  from assms Cons have n: "num_requests s = 1 + int (length ys)"
    by (simp add: queue_rep_def)
  from queue_rep_shape(1,2) [OF q] n
  have "if num_requests s = 1 then nxt r = None else nxt r \<noteq> None"
    by (auto split: if_splits)
  with r g q n Cons show ?thesis
    by (auto split: if_splits)
qed

theorem get_request_removes_head_witness:
  "queue_rep two_pending [(0, Test_func, 5), (1, SquareValue, 7)] \<and>
   (if num_requests two_pending = 0 then get_request two_pending = Inr (None, two_pending)
    else (\<exists>s'. get_request two_pending = Inr (requests two_pending, s') \<and>
            requests two_pending = Some (fst (hd [(0::addr, Test_func, 5::addr), (1, SquareValue, 7)])) \<and>
            queue_rep s' (tl [(0, Test_func, 5), (1, SquareValue, 7)]) \<and>
            heap s' = heap two_pending \<and> num_requests s' = num_requests two_pending - 1 \<and>
            (if num_requests two_pending = 1
             then requests s' = None \<and> last_request s' = None
             else requests s' \<noteq> None)))"
  using get_request_removes_head [OF queue_rep_two_pending] queue_rep_two_pending
  by blast

text \<open>
  C5.  In every well-formed queue state with fewer than \<open>INT_MAX\<close> (2147483647)
  requests pending, a call of \<open>add_request\<close> whose allocation succeeds (with a block
  that was not allocated before) returns normally; the list is the old one with the new
  item appended at the end, the counter has increased by exactly 1 and is still an
  \<open>int\<close>, and \<open>last_request\<close> points to the new node, which carries the function
  and payload given and a \<open>NULL\<close> next pointer.
\<close>

theorem add_request_appends:
  assumes "queue_rep s xs" and "a \<notin> dom (heap s)" and "num_requests s < 2147483647"
  shows "\<exists>s'. add_request f d (Some a) s = Inr s' \<and> queue_rep s' (xs @ [(a, f, d)]) \<and>
           num_requests s' = num_requests s + 1 \<and> num_requests s' \<le> 2147483647 \<and>
           last_request s' = Some a \<and>
           heap s' a = Some \<lparr>func = f, data = d, nxt = None\<rparr>"
  using queue_rep_add [OF assms, of f d] by blast

theorem add_request_appends_witness:
  "queue_rep one_pending [(0, Test_func, 5)] \<and> 1 \<notin> dom (heap one_pending) \<and>
   num_requests one_pending < 2147483647 \<and>
   (\<exists>s'. add_request SquareValue 7 (Some 1) one_pending = Inr s' \<and>
      queue_rep s' ([(0, Test_func, 5)] @ [(1, SquareValue, 7)]) \<and>
      num_requests s' = num_requests one_pending + 1 \<and> num_requests s' \<le> 2147483647 \<and>
      last_request s' = Some 1 \<and>
      heap s' 1 = Some \<lparr>func = SquareValue, data = 7, nxt = None\<rparr>)"
proof -
  have fresh: "1 \<notin> dom (heap one_pending)" by (simp add: one_pending_def)
  have below: "num_requests one_pending < 2147483647" by (simp add: one_pending_def)
  from add_request_appends [OF queue_rep_one_pending fresh below]
    queue_rep_one_pending fresh below
  show ?thesis by blast
qed

text \<open>
  C8.  In every well-formed queue state \<open>add_request\<close> fails exactly when
  \<open>malloc\<close> returned \<open>NULL\<close>, and then the failure is \<open>exit(1)\<close>, which ends the
  whole process; when the allocation succeeded the call returns normally.
\<close>

theorem add_request_fails_only_on_malloc:
  assumes "queue_rep s xs"
  shows "(\<exists>e. add_request f d m s = Inl e) = (m = None) \<and>
         add_request f d None s = Inl (Exit 1)"
proof (cases m)
  case None
  then show ?thesis by (simp add: add_request_def)
next
  case (Some a)
  with queue_rep_add_total [OF assms, of f d a] show ?thesis
    by (auto simp: add_request_def)
qed

theorem add_request_fails_only_on_malloc_witness:
  "queue_rep two_pending [(0, Test_func, 5), (1, SquareValue, 7)] \<and>
   (\<exists>e. add_request Test_func 3 (Some 2) two_pending = Inl e) = (Some (2::nat) = None) \<and>
   add_request Test_func 3 None two_pending = Inl (Exit 1)"
  using add_request_fails_only_on_malloc [OF queue_rep_two_pending, of Test_func 3 "Some 2"]
    queue_rep_two_pending
  by blast

text \<open>
  C3, as the program has it.  \<open>add_request\<close> never looks at \<open>quit\<close>: in a
  well-formed queue state in which \<open>quit\<close> is set and fewer than \<open>INT_MAX\<close>
  (2147483647) requests are pending, a call whose allocation succeeds returns normally,
  appends the item, increases the counter by 1 and leaves \<open>quit\<close> as it was.
\<close>

theorem add_request_after_quit:
  assumes "queue_rep s xs" and "a \<notin> dom (heap s)" and "quit s \<noteq> 0"
    and "num_requests s < 2147483647"
  shows "\<exists>s'. add_request f d (Some a) s = Inr s' \<and> queue_rep s' (xs @ [(a, f, d)]) \<and>
           num_requests s' = num_requests s + 1 \<and> quit s' = quit s"
  using queue_rep_add [OF assms(1,2,4), of f d] by blast

theorem add_request_after_quit_witness:
  "queue_rep (set_quit one_pending) [(0, Test_func, 5)] \<and>
   1 \<notin> dom (heap (set_quit one_pending)) \<and> quit (set_quit one_pending) \<noteq> 0 \<and>
   num_requests (set_quit one_pending) < 2147483647 \<and>
   (\<exists>s'. add_request SquareValue 7 (Some 1) (set_quit one_pending) = Inr s' \<and>
      queue_rep s' ([(0, Test_func, 5)] @ [(1, SquareValue, 7)]) \<and>
      num_requests s' = num_requests (set_quit one_pending) + 1 \<and>
      quit s' = quit (set_quit one_pending))"
proof -
  have rep: "queue_rep (set_quit one_pending) [(0, Test_func, 5)]"
    by (rule queue_rep_set_quit [OF queue_rep_one_pending])
  have fresh: "1 \<notin> dom (heap (set_quit one_pending))"
    by (simp add: one_pending_def set_quit_def)
  have q: "quit (set_quit one_pending) \<noteq> 0"
    by (simp add: set_quit_def)
  have below: "num_requests (set_quit one_pending) < 2147483647"
    by (simp add: one_pending_def set_quit_def)
  from add_request_after_quit [OF rep fresh q below] rep fresh q below
  show ?thesis by blast
qed

text \<open>
  The claim C3 as the specification has it fails: with \<open>quit\<close> set on the empty
  queue, submitting \<open>squareValue\<close> returns normally and the item is in the queue.
\<close>

theorem add_request_after_quit_counterexample:
  "quit (set_quit init_pool) \<noteq> 0 \<and>
   add_request SquareValue 0 (Some 0) (set_quit init_pool) =
     Inr \<lparr>heap = [0 \<mapsto> \<lparr>func = SquareValue, data = 0, nxt = None\<rparr>],
          requests = Some 0, last_request = Some 0, num_requests = 1, quit = 1\<rparr>"
  by (simp add: add_request_def set_quit_def init_pool_def)

text \<open>
  C2.  Along every sequence of \<open>add_request\<close> and \<open>get_request\<close> calls from the
  initial state in which \<open>add_request\<close> is only called with fewer than \<open>INT_MAX\<close>
  (2147483647) requests pending, the items returned by the successful \<open>get_request\<close>
  calls, in the order of the calls, are a prefix of the items submitted, in the order of
  submission; what is pending is the rest of the submitted items, in the same order.
\<close>

theorem dequeue_order_fifo:
  assumes "reach s sub deq held"
  shows "prefix deq sub \<and> (\<exists>xs. queue_rep s xs \<and> map snd xs = drop (length deq) sub)"
proof -
  from reach_inv [OF assms] obtain xs where "queue_rep s xs" "sub = deq @ map snd xs"
    by blast
  then show ?thesis by auto
qed

theorem dequeue_order_fifo_witness:
  "reach second_pending [(Test_func, 5), (SquareValue, 7)] [(Test_func, 5)] {0} \<and>
   prefix [(Test_func, 5::addr)] [(Test_func, 5), (SquareValue, 7)] \<and>
   (\<exists>xs. queue_rep second_pending xs \<and>
      map snd xs = drop (length [(Test_func, 5::addr)]) [(Test_func, 5), (SquareValue, 7)])"
  using dequeue_order_fifo [OF reach_second_pending] reach_second_pending
  by blast

text \<open>
  C6.  In every state reached from the initial one by \<open>add_request\<close> and
  \<open>get_request\<close> calls, \<open>add_request\<close> being only called with fewer than
  \<open>INT_MAX\<close> (2147483647) requests pending: \<open>requests\<close> is non-null exactly when
  the counter is positive, \<open>last_request\<close> is non-null exactly when the counter is
  positive, the two pointers are equal when the counter is 1, the counter is the number
  of items submitted minus the number of items handed out by \<open>get_request\<close>, and it
  lies between 0 and \<open>INT_MAX\<close>.
\<close>

theorem reach_queue_invariant:
  assumes "reach s sub deq held"
  shows "(requests s \<noteq> None) = (0 < num_requests s) \<and>
         (last_request s \<noteq> None) = (0 < num_requests s) \<and>
         (num_requests s = 1 \<longrightarrow> requests s = last_request s) \<and>
         num_requests s = int (length sub) - int (length deq) \<and>
         0 \<le> num_requests s \<and> num_requests s \<le> 2147483647"
proof -
  from reach_inv [OF assms] obtain xs where xs: "queue_rep s xs" "sub = deq @ map snd xs"
    and b: "num_requests s \<le> 2147483647"
    by blast
  from xs have "num_requests s = int (length sub) - int (length deq)" "0 \<le> num_requests s"
    by (simp_all add: queue_rep_def)
  with queue_rep_shape(1,2,3) [OF xs(1)] b show ?thesis by blast
qed

theorem reach_queue_invariant_witness:
  "reach second_pending [(Test_func, 5), (SquareValue, 7)] [(Test_func, 5)] {0} \<and>
   (requests second_pending \<noteq> None) = (0 < num_requests second_pending) \<and>
   (last_request second_pending \<noteq> None) = (0 < num_requests second_pending) \<and>
   num_requests second_pending = 1 \<and> requests second_pending = last_request second_pending \<and>
   num_requests second_pending =
     int (length [(Test_func, 5::addr), (SquareValue, 7)]) - int (length [(Test_func, 5::addr)]) \<and>
   0 \<le> num_requests second_pending \<and> num_requests second_pending \<le> 2147483647"
proof -
  have one: "num_requests second_pending = 1" by (simp add: second_pending_def)
  from reach_queue_invariant [OF reach_second_pending] reach_second_pending one
  show ?thesis by blast
qed

text \<open>
  C10.  In every state reached from the initial one by \<open>add_request\<close> and
  \<open>get_request\<close> calls, \<open>add_request\<close> being only called with fewer than
  \<open>INT_MAX\<close> (2147483647) requests pending: if the queue is non-empty then the node
  \<open>last_request\<close> points to has a \<open>NULL\<close> next pointer; and the same holds again
  after a further \<open>add_request\<close> (with a block that was not allocated before, and
  fewer than \<open>INT_MAX\<close> requests pending), and after a further \<open>get_request\<close> if
  the queue is still non-empty then.
\<close>

theorem tail_next_null:
  assumes "reach s sub deq held"
  shows "(0 < num_requests s \<longrightarrow> tail_terminated s) \<and>
         (\<forall>f d a s'. a \<notin> dom (heap s) \<and> num_requests s < 2147483647 \<and>
              add_request f d (Some a) s = Inr s'
            \<longrightarrow> 0 < num_requests s' \<and> num_requests s' \<le> 2147483647 \<and>
                tail_terminated s') \<and>
         (\<forall>p s'. get_request s = Inr (p, s') \<and> 0 < num_requests s'
            \<longrightarrow> tail_terminated s')"
proof -
  from reach_inv [OF assms] obtain xs where xs: "queue_rep s xs" by blast
  have now: "0 < num_requests s \<longrightarrow> tail_terminated s"
    using queue_rep_shape(4) [OF xs] by blast
  have add: "0 < num_requests s' \<and> num_requests s' \<le> 2147483647 \<and> tail_terminated s'"
    if "a \<notin> dom (heap s)" and "num_requests s < 2147483647"
      and "add_request f d (Some a) s = Inr s'" for f d a s'
  proof -
    from queue_rep_add [OF xs that(1,2), of f d] that(3)
    have rep: "queue_rep s' (xs @ [(a, f, d)])" and b: "num_requests s' \<le> 2147483647"
      by auto
    from rep have "0 < num_requests s'" by (simp add: queue_rep_def)
    with queue_rep_shape(4) [OF rep] b show ?thesis by blast
  qed
  have get: "tail_terminated s'"
    if "get_request s = Inr (p, s')" and "0 < num_requests s'" for p s'
  proof (cases xs)
    case Nil
    with xs that(1) have "s' = s" by (simp add: queue_rep_get_empty)
    with now that(2) show ?thesis by blast
  next
    case (Cons x ys)
    with queue_rep_get [of s x ys] xs that(1) have "queue_rep s' ys" by auto
    from queue_rep_shape(4) [OF this that(2)] show ?thesis .
  qed
  from now add get show ?thesis by blast
qed

theorem tail_next_null_witness:
  "reach one_pending [(Test_func, 5)] [] {} \<and>
   0 < num_requests one_pending \<and> tail_terminated one_pending \<and>
   1 \<notin> dom (heap one_pending) \<and> num_requests one_pending < 2147483647 \<and>
   add_request SquareValue 7 (Some 1) one_pending = Inr two_pending \<and>
   0 < num_requests two_pending \<and> num_requests two_pending \<le> 2147483647 \<and>
   tail_terminated two_pending \<and>
   reach two_pending [(Test_func, 5), (SquareValue, 7)] [] {} \<and>
   get_request two_pending = Inr (Some 0, second_pending) \<and>
   0 < num_requests second_pending \<and> tail_terminated second_pending"
proof -
  have pos: "0 < num_requests one_pending" "0 < num_requests second_pending"
    by (simp_all add: one_pending_def second_pending_def)
  have fresh: "1 \<notin> dom (heap one_pending)" by (simp add: one_pending_def)
  have below: "num_requests one_pending < 2147483647" by (simp add: one_pending_def)
  from tail_next_null [OF reach_one_pending] pos(1) fresh below add_request_one_pending
  have a: "tail_terminated one_pending" "tail_terminated two_pending"
    "0 < num_requests two_pending" "num_requests two_pending \<le> 2147483647" by blast+
  from tail_next_null [OF reach_two_pending] pos(2) get_request_two_pending
  have b: "tail_terminated second_pending" by blast
  from a b pos fresh below add_request_one_pending get_request_two_pending
    reach_one_pending reach_two_pending
  show ?thesis by blast
qed

section \<open>The worker and the program\<close>

subsection \<open>The worker on a well-formed queue\<close>

lemma while_running_stop: "while_running (0, s, mem) = Some (Inr (s, mem))"
  by (subst while_running.simps) simp

lemma while_running_pass:
  "running \<noteq> 0 \<Longrightarrow> loop_body running s mem = Inr c' \<Longrightarrow>
   while_running (running, s, mem) = while_running c'"
  by (subst while_running.simps) simp

lemma loop_body_empty:
  assumes "queue_rep s []"
  shows "loop_body running s mem = Inr (if quit s \<noteq> 0 then 0 else running, s, mem)"
  using assms by (simp add: loop_body_def queue_rep_def)

lemma loop_body_pending:
  assumes "queue_rep s (x # xs)" and "call (fst (snd x)) (snd (snd x)) mem = Inr mem'"
  shows "\<exists>s'. loop_body running s mem = Inr (if quit s \<noteq> 0 then 0 else running, s', mem') \<and>
           queue_rep s' xs \<and> quit s' = quit s"
proof -
  from queue_rep_get [OF assms(1)] obtain r s1 where
    r: "heap s (fst x) = Some r" "(func r, data r) = snd x"
    and s1: "s1 = s\<lparr>requests := nxt r,
                    last_request := (if nxt r = None then None else last_request s),
                    num_requests := num_requests s - 1\<rparr>"
    and g: "get_request s = Inr (Some (fst x), s1)" and q: "queue_rep s1 xs"
    by blast
  from assms(1) have pos: "0 < num_requests s" and fresh: "fst x \<notin> fst ` set xs"
    by (auto simp: queue_rep_def)
  from r s1 assms(2) have h: "handle_request (fst x) s1 mem = Inr mem'"
    by (auto simp: handle_request_def prod_eq_iff)
  have "quit (free_request (fst x) s1) = quit s"
    by (simp add: s1 free_request_def)
  with pos g h queue_rep_free [OF q fresh] show ?thesis
    by (simp add: loop_body_def)
qed

lemma worker_quit_empty:
  assumes "queue_rep s []" and "quit s \<noteq> 0"
  shows "handle_requests_loop s mem = Some (Inr (s, mem))"
proof -
  from loop_body_empty [OF assms(1)] assms(2) have "loop_body 1 s mem = Inr (0, s, mem)"
    by simp
  then show ?thesis
    by (simp add: handle_requests_loop_def while_running_pass while_running_stop)
qed

lemma worker_quit_pending:
  assumes "queue_rep s (x # xs)" and "quit s \<noteq> 0"
    and "call (fst (snd x)) (snd (snd x)) mem = Inr mem'"
  shows "\<exists>s'. handle_requests_loop s mem = Some (Inr (s', mem')) \<and> queue_rep s' xs \<and>
           quit s' = quit s"
proof -
  from loop_body_pending [OF assms(1,3), of 1] assms(2) obtain s' where
    "loop_body 1 s mem = Inr (0, s', mem')" "queue_rep s' xs" "quit s' = quit s"
    by auto
  then show ?thesis
    by (auto simp: handle_requests_loop_def while_running_pass while_running_stop)
qed

lemma run_workers_quit:
  assumes "queue_rep s xs" and "quit s \<noteq> 0"
    and "run_items (take n (map snd xs)) mem = Inr mem'"
  shows "\<exists>s'. run_workers n (s, mem) = Some (Inr (s', mem')) \<and> queue_rep s' (drop n xs) \<and>
           quit s' = quit s"
  using assms
proof (induction n arbitrary: s xs mem)
  case 0
  then show ?case by simp
next
  case (Suc n)
  show ?case
  proof (cases xs)
    case Nil
    with Suc.prems have w: "handle_requests_loop s mem = Some (Inr (s, mem))"
      and m: "run_items (take n (map snd xs)) mem = Inr mem'"
      by (simp_all add: worker_quit_empty)
    from Suc.IH [OF Suc.prems(1,2) m] w Nil show ?thesis by simp
  next
    case (Cons x ys)
    with Suc.prems(3) obtain mem1 where c: "call (fst (snd x)) (snd (snd x)) mem = Inr mem1"
      and m: "run_items (take n (map snd ys)) mem1 = Inr mem'"
      by (auto split: sum.splits)
    from worker_quit_pending [OF _ Suc.prems(2) c] Suc.prems(1) Cons obtain s1 where
      w: "handle_requests_loop s mem = Some (Inr (s1, mem1))" and q: "queue_rep s1 ys"
      and k: "quit s1 = quit s"
      by blast
    from k Suc.prems(2) have "quit s1 \<noteq> 0" by simp
    from Suc.IH [OF q this m] w k Cons show ?thesis by auto
  qed
qed

lemma loop_iterations_drain:
  assumes "queue_rep s xs" and "quit s = 0" and "run_items (map snd xs) mem = Inr mem'"
  shows "\<exists>s'. loop_iterations (length xs) (1, s, mem) = Inr (1, s', mem') \<and>
           queue_rep s' [] \<and> quit s' = 0"
  using assms
proof (induction xs arbitrary: s mem)
  case Nil
  then show ?case by simp
next
  case (Cons x xs)
  from Cons.prems(3) obtain mem1 where c: "call (fst (snd x)) (snd (snd x)) mem = Inr mem1"
    and m: "run_items (map snd xs) mem1 = Inr mem'"
    by (auto split: sum.splits)
  from loop_body_pending [OF Cons.prems(1) c, of 1] Cons.prems(2) obtain s1 where
    b: "loop_body 1 s mem = Inr (1, s1, mem1)" and q: "queue_rep s1 xs" and k: "quit s1 = 0"
    by auto
  from Cons.IH [OF q k m] b show ?case by simp
qed

lemma submit_loop_rep:
  assumes "queue_rep s xs" and "distinct as" and "set as \<inter> dom (heap s) = {}"
    and "num_requests s + int (length as) \<le> 2147483647"
  shows "\<exists>s'. submit_loop i (map Some as) s = Inr s' \<and>
           queue_rep s' (xs @ map (\<lambda>(a, j). (a, SquareValue, j)) (zip as [i..<i + length as])) \<and>
           quit s' = quit s"
  using assms
proof (induction as arbitrary: s xs i)
  case Nil
  then show ?case by simp
next
  case (Cons a as)
  from Cons.prems have fresh: "a \<notin> dom (heap s)" and below: "num_requests s < 2147483647"
    by auto
  from queue_rep_add [OF Cons.prems(1) fresh below, of SquareValue i] obtain s1 where
    a: "add_request SquareValue i (Some a) s = Inr s1"
    and q: "queue_rep s1 (xs @ [(a, SquareValue, i)])"
    and c: "num_requests s1 = num_requests s + 1"
    and d: "dom (heap s1) = insert a (dom (heap s))" and k: "quit s1 = quit s"
    by blast
  from Cons.prems d c have "distinct as" "set as \<inter> dom (heap s1) = {}"
    "num_requests s1 + int (length as) \<le> 2147483647" by auto
  from Cons.IH [OF q this, of "Suc i"] obtain s' where
    s': "submit_loop (Suc i) (map Some as) s1 = Inr s'"
    "queue_rep s' ((xs @ [(a, SquareValue, i)]) @
        map (\<lambda>(a, j). (a, SquareValue, j)) (zip as [Suc i..<Suc i + length as]))"
    "quit s' = quit s1"
    by blast
  have "[i..<i + length (a # as)] = i # [Suc i..<Suc i + length as]"
    using upt_conv_Cons [of i "i + length (a # as)"] by simp
  with a s' k show ?case by simp
qed


subsection \<open>The runs of \<open>main\<close>\<close>

lemma submitted_items:
  "length as = n \<Longrightarrow>
   map snd (map (\<lambda>(a, j). (a, SquareValue, j)) (zip as [i..<i + n])) =
     map (\<lambda>j. (SquareValue, j)) [i..<i + n]"
proof -
  assume n: "length as = n"
  have "map snd (map (\<lambda>(a, j). (a, SquareValue, j)) (zip as [i..<i + n])) =
        map (\<lambda>j. (SquareValue, j)) (map snd (zip as [i..<i + n]))"
    by (simp add: case_prod_unfold)
  also from n have "map snd (zip as [i..<i + n]) = [i..<i + n]"
    by (intro map_snd_zip) simp
  finally show ?thesis .
qed

lemma main_submits:
  assumes "distinct as" and "length as = length array"
  shows "\<exists>s xs. submit_loop 0 (map Some as) init_pool = Inr s \<and> queue_rep s xs \<and>
           quit s = 0 \<and> length xs = 13 \<and>
           map snd xs = map (\<lambda>j. (SquareValue, j)) [0..<13]"
proof -
  have e: "set as \<inter> dom (heap init_pool) = {}" by (simp add: init_pool_def)
  from assms(2) have n: "length as = 13" by (simp add: array_def)
  from n have b: "num_requests init_pool + int (length as) \<le> 2147483647"
    by (simp add: init_pool_def)
  from submit_loop_rep [OF queue_rep_empty assms(1) e b, of 0] obtain s where
    s: "submit_loop 0 (map Some as) init_pool = Inr s"
    "queue_rep s (map (\<lambda>(a, j). (a, SquareValue, j)) (zip as [0..<0 + length as]))"
    "quit s = quit init_pool"
    by auto
  from submitted_items [OF n, of 0] n s show ?thesis
    by (intro exI [of _ s] exI [of _ "map (\<lambda>(a, j). (a, SquareValue, j)) (zip as [0..<13])"])
       (simp add: init_pool_def)
qed

lemma indices: "[0..<13] = [0, 1, 2, 3, 4, 5, 6, 7, 8, 9, 10, 11, 12]"
  by (simp add: upt_rec)

lemma run_items_all:
  "run_items (map (\<lambda>j. (SquareValue, j)) [0..<13]) array =
     Inr [1, 144, 454670329, 144, 980441344, 1, 169, 9, 25, 49, 64, 81, 889249]"
  by (simp add: indices array_def call_def squareValue_def square_def)

lemma run_items_first_three:
  "run_items (take 3 (map (\<lambda>j. (SquareValue, j)) [0..<13])) array =
     Inr [1, 144, 454670329, 12, 31312, 1, 13, 3, 5, 7, 8, 9, 943]"
  by (simp add: indices array_def call_def squareValue_def square_def)

subsection \<open>The claims about the worker and the scenario\<close>

text \<open>
  C1, on the program.  In the run \<open>main_quit_first\<close>, whatever fresh blocks \<open>malloc\<close>
  hands out, all three workers return from \<open>handle_requests_loop\<close> while ten of the
  thirteen submitted requests are still in the queue: each worker handles one request,
  then sees \<open>quit\<close> and leaves the loop.  Only the first three cells of the array have
  been squared when the last \<open>pthread_join\<close> returns.
\<close>

theorem workers_exit_with_requests_pending:
  assumes "distinct as" and "length as = length array"
  shows "pending_and_array (main_quit_first (map Some as)) =
           Some (Inr (10, [1, 144, 454670329, 12, 31312, 1, 13, 3, 5, 7, 8, 9, 943]))"
proof -
  from main_submits [OF assms] obtain s xs where
    s: "submit_loop 0 (map Some as) init_pool = Inr s" and q: "queue_rep s xs"
    and n: "length xs = 13" and items: "map snd xs = map (\<lambda>j. (SquareValue, j)) [0..<13]"
    by blast
  have q': "queue_rep (set_quit s) xs" by (rule queue_rep_set_quit [OF q])
  have k: "quit (set_quit s) \<noteq> 0" by (simp add: set_quit_def)
  from run_items_first_three items
  have "run_items (take 3 (map snd xs)) array =
          Inr [1, 144, 454670329, 12, 31312, 1, 13, 3, 5, 7, 8, 9, 943]"
    by simp
  from run_workers_quit [OF q' k this] obtain s' where
    w: "run_workers 3 (set_quit s, array) =
          Some (Inr (s', [1, 144, 454670329, 12, 31312, 1, 13, 3, 5, 7, 8, 9, 943]))"
    and r: "queue_rep s' (drop 3 xs)"
    by blast
  from r n have "num_requests s' = 10" by (simp add: queue_rep_def)
  with s w show ?thesis
    by (simp add: pending_and_array_def main_quit_first_def NUM_HANDLER_THREADS_def)
qed

theorem workers_exit_with_requests_pending_witness:
  "distinct [100, 101, 102, 103, 104, 105, 106, 107, 108, 109, 110, 111, 112 :: addr] \<and>
   length [100, 101, 102, 103, 104, 105, 106, 107, 108, 109, 110, 111, 112 :: addr] =
     length array \<and>
   pending_and_array
     (main_quit_first
        (map Some [100, 101, 102, 103, 104, 105, 106, 107, 108, 109, 110, 111, 112])) =
     Some (Inr (10, [1, 144, 454670329, 12, 31312, 1, 13, 3, 5, 7, 8, 9, 943]))"
proof -
  have d: "distinct [100, 101, 102, 103, 104, 105, 106, 107, 108, 109, 110, 111, 112 :: addr]"
    by simp
  have l: "length [100, 101, 102, 103, 104, 105, 106, 107, 108, 109, 110, 111, 112 :: addr] =
      length array"
    by (simp add: array_def)
  from workers_exit_with_requests_pending [OF d l] d l show ?thesis by blast
qed

text \<open>
  C7, with the fifth square as the program computes it.  Squaring each element of the
  array gives \<open>[1, 144, 454670329, 144, 980441344, 1, 169, 9, 25, 49, 64, 81, 889249]\<close>,
  with no overflow; and in the run \<open>main_drained\<close>, whatever fresh blocks \<open>malloc\<close>
  hands out, the three workers have returned, the queue is empty and the array holds
  exactly these squares.
\<close>

theorem square_in_place:
  assumes "distinct as" and "length as = length array"
  shows "map square array =
           map Inr [1, 144, 454670329, 144, 980441344, 1, 169, 9, 25, 49, 64, 81, 889249] \<and>
         pending_and_array (main_drained (map Some as)) =
           Some (Inr (0, [1, 144, 454670329, 144, 980441344, 1, 169, 9, 25, 49, 64, 81, 889249]))"
proof -
  let ?sq = "[1, 144, 454670329, 144, 980441344, 1, 169, 9, 25, 49, 64, 81, 889249] :: memory"
  have m: "map square array = map Inr ?sq"
    by (simp add: array_def square_def)
  from main_submits [OF assms] obtain s xs where
    s: "submit_loop 0 (map Some as) init_pool = Inr s" and q: "queue_rep s xs"
    and k: "quit s = 0"
    and n: "length xs = 13" and items: "map snd xs = map (\<lambda>j. (SquareValue, j)) [0..<13]"
    by blast
  from run_items_all items have "run_items (map snd xs) array = Inr ?sq" by simp
  from loop_iterations_drain [OF q k this] n obtain s1 where
    d: "loop_iterations 13 (1, s, array) = Inr (1, s1, ?sq)" and q1: "queue_rep s1 []"
    by auto
  have q2: "queue_rep (set_quit s1) []" by (rule queue_rep_set_quit [OF q1])
  have k2: "quit (set_quit s1) \<noteq> 0" by (simp add: set_quit_def)
  from worker_quit_empty [OF q2 k2, of ?sq]
  have w: "while_running (1, set_quit s1, ?sq) = Some (Inr (set_quit s1, ?sq))"
    by (simp add: handle_requests_loop_def)
  have "run_items (take 2 (map snd [])) ?sq = Inr ?sq" by simp
  from run_workers_quit [OF q2 k2 this] obtain s2 where
    r: "run_workers 2 (set_quit s1, ?sq) = Some (Inr (s2, ?sq))" and q3: "queue_rep s2 (drop 2 [])"
    by blast
  from q3 have "num_requests s2 = 0" by (simp add: queue_rep_def)
  moreover from assms(2) have "length as = 13" by (simp add: array_def)
  ultimately have "pending_and_array (main_drained (map Some as)) = Some (Inr (0, ?sq))"
    using s d w r
    by (simp add: pending_and_array_def main_drained_def NUM_HANDLER_THREADS_def)
  with m show ?thesis by blast
qed

theorem square_in_place_witness:
  "distinct [100, 101, 102, 103, 104, 105, 106, 107, 108, 109, 110, 111, 112 :: addr] \<and>
   length [100, 101, 102, 103, 104, 105, 106, 107, 108, 109, 110, 111, 112 :: addr] =
     length array \<and>
   map square array =
     map Inr [1, 144, 454670329, 144, 980441344, 1, 169, 9, 25, 49, 64, 81, 889249] \<and>
   pending_and_array
     (main_drained
        (map Some [100, 101, 102, 103, 104, 105, 106, 107, 108, 109, 110, 111, 112])) =
     Some (Inr (0, [1, 144, 454670329, 144, 980441344, 1, 169, 9, 25, 49, 64, 81, 889249]))"
proof -
  have d: "distinct [100, 101, 102, 103, 104, 105, 106, 107, 108, 109, 110, 111, 112 :: addr]"
    by simp
  have l: "length [100, 101, 102, 103, 104, 105, 106, 107, 108, 109, 110, 111, 112 :: addr] =
      length array"
    by (simp add: array_def)
  from square_in_place [OF d l] d l show ?thesis by blast
qed

text \<open>
  The claim C7 with the numbers of the specification fails: the square of the fifth
  element, 31312, is 980441344 and not 980440944.
\<close>

theorem square_in_place_counterexample:
  "array ! 4 = 31312 \<and> square (array ! 4) = Inr 980441344 \<and>
   map square array \<noteq>
     map Inr [1, 144, 454670329, 144, 980440944, 1, 169, 9, 25, 49, 64, 81, 889249]"
  by (simp add: array_def square_def)

end
